theory Spec2Isabelle
  imports Main "HOL-Library.Word" "HOL-Library.Signed_Division"
begin

section \<open>Data model\<close>

text \<open>
  The program stores C++ \<^verbatim>\<open>int\<close> values: 32-bit two's complement machine integers.
  They are modelled as 32-bit words read through \<open>sint\<close>. Addition on words wraps
  around; in C++ a signed overflow is undefined, and wrap-around is what the usual
  two's complement targets compute. Sizes and indices (\<^verbatim>\<open>size_t\<close>) are natural numbers.
\<close>

type_synonym int32 = "32 word"

text \<open>\<^verbatim>\<open>using Row = std::vector<int>\<close>\<close>

type_synonym Row = "int32 list"

text \<open>
  \<^verbatim>\<open>class Triangle\<close> has the single private member \<^verbatim>\<open>std::vector<Row> rows_\<close>,
  read through the accessor \<^verbatim>\<open>rows()\<close>; the field is named \<open>rows\<close> here, a name
  ending in an underscore not being available. The default constructor leaves it empty.
\<close>

record Triangle =
  rows :: "Row list"

definition empty_triangle :: Triangle where
  "empty_triangle = \<lparr>rows = []\<rparr>"

text \<open>
  The two \<^verbatim>\<open>throw std::invalid_argument\<close> sites of the program, told apart by their
  message, and the reads and writes outside a vector's bounds, which C++ leaves
  undefined and which the model makes an outcome of its own.
\<close>

datatype error = InvalidShape | EmptyTriangle | OutOfRange

definition height :: "Triangle \<Rightarrow> nat" where
  "height t = length (rows t)"

definition width :: "Triangle \<Rightarrow> nat" where
  "width t = height t"

text \<open>
  \<^verbatim>\<open>int at(size_t row, size_t n) const { return rows_[row][n]; }\<close> and the non-const
  overload, which returns a reference the caller may assign through.
\<close>

definition at :: "Triangle \<Rightarrow> nat \<Rightarrow> nat \<Rightarrow> error + int32" where
  "at t row n =
     (if row < length (rows t) \<and> n < length (rows t ! row)
      then Inr (rows t ! row ! n) else Inl OutOfRange)"

definition at_assign :: "Triangle \<Rightarrow> nat \<Rightarrow> nat \<Rightarrow> int32 \<Rightarrow> error + Triangle" where
  "at_assign t row n v =
     (if row < length (rows t) \<and> n < length (rows t ! row)
      then Inr (t\<lparr>rows := (rows t)[row := (rows t ! row)[n := v]]\<rparr>)
      else Inl OutOfRange)"

text \<open>
  \<^verbatim>\<open>void append_row(Row&& row)\<close>: the result pairs what the call returns (nothing, or
  the exception thrown) with the Triangle as the call leaves it. The throw comes
  before any statement that touches the rows.
\<close>

definition append_row :: "Triangle \<Rightarrow> Row \<Rightarrow> (error + unit) \<times> Triangle" where
  "append_row t row =
     (if length row \<noteq> height t + 1
      then (Inl InvalidShape, t)
      else (Inr (), t\<lparr>rows := rows t @ [row]\<rparr>))"

section \<open>The fold engine\<close>

text \<open>
  The inner loop of \<^verbatim>\<open>fold_triangle\<close>:
  \<^verbatim>\<open>for (size_t i = 0; i != row_iter->size(); ++i) {
       int value = (*row_iter)[i];
       *accum_iter = combine_t(value, *accum_iter, *std::next(accum_iter));
       ++accum_iter; }\<close>
  \<^verbatim>\<open>accum_iter\<close> starts at \<^verbatim>\<open>accum.begin()\<close> and moves with \<open>i\<close>, so it is position \<open>i\<close>
  of the accumulator, which is overwritten in place. The counter starts at 0 and
  goes up by one, so the test \<open>i \<noteq> size\<close> is \<open>i < size\<close>. Dereferencing
  \<^verbatim>\<open>std::next(accum_iter)\<close> needs position \<open>i + 1\<close> to exist.
\<close>

function combine_loop ::
  "(int32 \<Rightarrow> 'a \<Rightarrow> 'a \<Rightarrow> 'a) \<Rightarrow> Row \<Rightarrow> nat \<Rightarrow> 'a list \<Rightarrow> error + 'a list" where
  "combine_loop combine_t row i accum =
     (if i < length row then
        (if Suc i < length accum
         then combine_loop combine_t row (Suc i)
                (accum[i := combine_t (row ! i) (accum ! i) (accum ! Suc i)])
         else Inl OutOfRange)
      else Inr accum)"
  by pat_completeness auto
termination
  by (relation "measure (\<lambda>(combine_t, row, i, accum). length row - i)") auto

declare combine_loop.simps [simp del]

text \<open>
  The outer loop, \<^verbatim>\<open>while (++row_iter != row_end)\<close>, over the rows above the bottom
  one in reverse order: the list given here is the rest of the reversed rows.
\<close>

fun row_loop ::
  "(int32 \<Rightarrow> 'a \<Rightarrow> 'a \<Rightarrow> 'a) \<Rightarrow> Row list \<Rightarrow> 'a list \<Rightarrow> error + 'a list" where
  "row_loop combine_t [] accum = Inr accum"
| "row_loop combine_t (row # uppers) accum =
     (case combine_loop combine_t row 0 accum of
        Inl e \<Rightarrow> Inl e
      | Inr accum' \<Rightarrow> row_loop combine_t uppers accum')"

text \<open>
  \<^verbatim>\<open>template <typename T> T fold_triangle(triangle, make_t, combine_t)\<close>. The
  accumulator is filled from the bottom row (\<^verbatim>\<open>*rows().rbegin()\<close>, the first of the
  reversed rows), and \<^verbatim>\<open>accum.front()\<close> is returned at the end. After the test of the
  height the reversed rows are not empty; \<^verbatim>\<open>front()\<close> of an empty accumulator is
  outside its bounds.
\<close>

definition fold_triangle ::
  "Triangle \<Rightarrow> (int32 \<Rightarrow> 'a) \<Rightarrow> (int32 \<Rightarrow> 'a \<Rightarrow> 'a \<Rightarrow> 'a) \<Rightarrow> error + 'a" where
  "fold_triangle triangle make_t combine_t =
     (if height triangle = 0 then Inl EmptyTriangle
      else
        (case rev (rows triangle) of
           [] \<Rightarrow> Inl OutOfRange
         | bottom # uppers \<Rightarrow>
             (case row_loop combine_t uppers (map make_t bottom) of
                Inl e \<Rightarrow> Inl e
              | Inr accum \<Rightarrow>
                  (case accum of [] \<Rightarrow> Inl OutOfRange | front # _ \<Rightarrow> Inr front))))"

section \<open>The path evaluators\<close>

text \<open>
  \<^verbatim>\<open>std::max(a, b)\<close> on \<^verbatim>\<open>int\<close> is \<^verbatim>\<open>(a < b) ? b : a\<close> with the signed order.
\<close>

definition std_max :: "int32 \<Rightarrow> int32 \<Rightarrow> int32" where
  "std_max a b = (if a <s b then b else a)"

definition max_path :: "Triangle \<Rightarrow> error + int32" where
  "max_path triangle =
     fold_triangle triangle (\<lambda>i. i) (\<lambda>i left right. i + std_max left right)"

text \<open>
  \<^verbatim>\<open>n % 2 == 0\<close> on \<^verbatim>\<open>int\<close>: the remainder of the division that truncates towards
  zero, which is \<open>smod\<close> on the signed values.
\<close>

definition is_even :: "int32 \<Rightarrow> bool" where
  "is_even n = (sint n smod 2 = 0)"

definition max_odd_even_path :: "Triangle \<Rightarrow> error + int32" where
  "max_odd_even_path triangle =
     fold_triangle triangle (\<lambda>i. i)
       (\<lambda>i left right. i + std_max (if is_even left then 0 else left)
                                  (if is_even right then right else 0))"

section \<open>The shape invariant and the recurrence of the fold\<close>

text \<open>
  The class invariant of \<^verbatim>\<open>Triangle\<close>, \<^verbatim>\<open>rows_[i].length = i + 1\<close>.
\<close>

definition shape_invariant :: "Triangle \<Rightarrow> bool" where
  "shape_invariant t = (\<forall>i<height t. length (rows t ! i) = i + 1)"

text \<open>
  The recurrence the specification gives for the fold, written from its words and
  not from the code: one step computes, for every position \<open>i\<close> of a row, the value
  \<open>combine (row[i], old_accum[i], old_accum[i+1])\<close> from the accumulator of the row
  below; the accumulator starts as \<open>make_leaf\<close> of the bottom row; the rows above the
  bottom one are taken in decreasing row order (\<open>foldr\<close> takes the last row of the
  list first); the result is the first element of the last accumulator.
\<close>

definition recurrence_step ::
  "(int32 \<Rightarrow> 'a \<Rightarrow> 'a \<Rightarrow> 'a) \<Rightarrow> Row \<Rightarrow> 'a list \<Rightarrow> 'a list" where
  "recurrence_step combine row old_accum =
     map (\<lambda>i. combine (row ! i) (old_accum ! i) (old_accum ! (i + 1))) [0..<length row]"

definition fold_recurrence ::
  "Triangle \<Rightarrow> (int32 \<Rightarrow> 'a) \<Rightarrow> (int32 \<Rightarrow> 'a \<Rightarrow> 'a \<Rightarrow> 'a) \<Rightarrow> 'a" where
  "fold_recurrence t make_leaf combine =
     hd (foldr (recurrence_step combine) (butlast (rows t)) (map make_leaf (last (rows t))))"

section \<open>Triangles a program can build\<close>

text \<open>
  A Triangle object starts from the default constructor and changes only through
  \<^verbatim>\<open>append_row\<close>, whether the call succeeds or throws, and through an assignment to
  the reference that the non-const \<^verbatim>\<open>at\<close> returns for a position inside a row.
  Copies, moves and assignments of Triangles give the same values.
\<close>

inductive reachable :: "Triangle \<Rightarrow> bool" where
  constructed: "reachable empty_triangle"
| appended: "reachable t \<Longrightarrow> append_row t row = (res, t') \<Longrightarrow> reachable t'"
| overwritten: "reachable t \<Longrightarrow> at_assign t r n v = Inr t' \<Longrightarrow> reachable t'"

section \<open>Paths through a triangle\<close>

text \<open>
  A path is the list of the positions it visits, one per row from the apex down.
  Each number is adjacent to the two below it: from position \<open>p\<close> a step goes to
  position \<open>p\<close> or \<open>p + 1\<close> of the next row.
\<close>

fun steps :: "nat list \<Rightarrow> bool" where
  "steps [] = True"
| "steps [p] = True"
| "steps (p # q # ps) = ((q = p \<or> q = p + 1) \<and> steps (q # ps))"

text \<open>
  A descent from position \<open>c\<close> of the first of the rows \<open>rs\<close> down to the last of them.
\<close>

definition descent :: "Row list \<Rightarrow> nat \<Rightarrow> nat list \<Rightarrow> bool" where
  "descent rs c ps = (length ps = length rs \<and> ps \<noteq> [] \<and> hd ps = c \<and> steps ps)"

definition is_path :: "Triangle \<Rightarrow> nat list \<Rightarrow> bool" where
  "is_path t ps = descent (rows t) 0 ps"

text \<open>The value of a path: the sum, as an integer, of the entries it visits.\<close>

definition entries_sum :: "Row list \<Rightarrow> nat list \<Rightarrow> int" where
  "entries_sum rs ps = (\<Sum>(row, p)\<leftarrow>zip rs ps. sint (row ! p))"

definition path_sum :: "Triangle \<Rightarrow> nat list \<Rightarrow> int" where
  "path_sum t ps = entries_sum (rows t) ps"

text \<open>The values an \<^verbatim>\<open>int\<close> can hold.\<close>

definition in_int_range :: "int \<Rightarrow> bool" where
  "in_int_range x = (- (2 ^ 31) \<le> x \<and> x < 2 ^ 31)"

text \<open>
  \<open>greatest_descent rs c x\<close>: \<open>x\<close> is the greatest sum of a descent from position \<open>c\<close>.
\<close>

definition greatest_descent :: "Row list \<Rightarrow> nat \<Rightarrow> int \<Rightarrow> bool" where
  "greatest_descent rs c x =
     ((\<exists>ps. descent rs c ps \<and> entries_sum rs ps = x) \<and>
      (\<forall>ps. descent rs c ps \<longrightarrow> entries_sum rs ps \<le> x))"

text \<open>
  No sum overflows: from every cell of the triangle (row \<open>k\<close>, position \<open>c \<le> k\<close>), the
  greatest sum of a descent to the base is a value an \<^verbatim>\<open>int\<close> can hold.
\<close>

definition no_overflow :: "Triangle \<Rightarrow> bool" where
  "no_overflow t =
     (\<forall>k c x. k < height t \<and> c \<le> k \<and> greatest_descent (drop k (rows t)) c x
        \<longrightarrow> in_int_range x)"

text \<open>
  The greatest descent sum by recursion over the rows, on unbounded integers.
\<close>

fun best :: "Row list \<Rightarrow> nat \<Rightarrow> int" where
  "best [] c = 0"
| "best [row] c = sint (row ! c)"
| "best (row # rs) c = sint (row ! c) + max (best rs c) (best rs (Suc c))"

definition nonnegative_entries :: "Triangle \<Rightarrow> bool" where
  "nonnegative_entries t = (\<forall>row\<in>set (rows t). \<forall>v\<in>set row. 0 \<le>s v)"

section \<open>The parity rule in the specification's words\<close>

text \<open>
  \<open>combine(v, l, r) = v + max(is_even(l) ? 0 : l, is_even(r) ? r : 0)\<close>, with evenness
  and the greater of two values taken on the signed values.
\<close>

definition greater_of :: "int32 \<Rightarrow> int32 \<Rightarrow> int32" where
  "greater_of a b = (if sint a \<le> sint b then b else a)"

definition odd_even_combine :: "int32 \<Rightarrow> int32 \<Rightarrow> int32 \<Rightarrow> int32" where
  "odd_even_combine v l r =
     v + greater_of (if even (sint l) then 0 else l) (if even (sint r) then r else 0)"

section \<open>The parser and the driver\<close>

text \<open>
  The input stream is the list of the characters not yet read.
  \<^verbatim>\<open>std::getline(stream, row_string)\<close> fails when no character is left; otherwise it
  takes the characters up to the next newline, which it consumes and drops, or up
  to the end of the input.
\<close>

definition newline :: char where
  "newline = CHR 0x0A"

fun getline :: "string \<Rightarrow> (string \<times> string) option" where
  "getline [] = None"
| "getline (c # cs) =
     Some (takeWhile (\<lambda>x. x \<noteq> newline) (c # cs),
           drop 1 (dropWhile (\<lambda>x. x \<noteq> newline) (c # cs)))"

text \<open>
  \<^verbatim>\<open>parse_triangle\<close>. The inner loop \<^verbatim>\<open>while (row_stream >> value) row.push_back(value)\<close>
  runs the standard library's formatted extraction, which is not part of this
  program: the values it collects from a line are the parameter \<open>read_row\<close>. The
  counter \<^verbatim>\<open>expected_row_size\<close> is used for \<^verbatim>\<open>reserve\<close> only and is left out. An
  exception of \<^verbatim>\<open>append_row\<close> is not caught: it ends the loop and the function.
\<close>

function parse_loop :: "(string \<Rightarrow> Row) \<Rightarrow> string \<Rightarrow> Triangle \<Rightarrow> error + Triangle" where
  "parse_loop read_row stream triangle =
     (case getline stream of
        None \<Rightarrow> Inr triangle
      | Some (row_string, rest) \<Rightarrow>
          (case append_row triangle (read_row row_string) of
             (Inl e, triangle') \<Rightarrow> Inl e
           | (Inr u, triangle') \<Rightarrow> parse_loop read_row rest triangle'))"
  by pat_completeness auto
termination
  by (relation "measure (\<lambda>(read_row, stream, triangle). length stream)")
    (auto simp: less_Suc_eq_le elim!: getline.elims
      intro: le_trans [OF diff_le_self length_dropWhile_le])

declare parse_loop.simps [simp del]

definition parse_triangle :: "(string \<Rightarrow> Row) \<Rightarrow> string \<Rightarrow> error + Triangle" where
  "parse_triangle read_row stream = parse_loop read_row stream empty_triangle"

text \<open>The lines of an input: what the successive calls of \<open>getline\<close> return.\<close>

function stream_lines :: "string \<Rightarrow> string list" where
  "stream_lines stream =
     (case getline stream of
        None \<Rightarrow> []
      | Some (row_string, rest) \<Rightarrow> row_string # stream_lines rest)"
  by pat_completeness auto
termination
  by (relation "measure length")
    (auto simp: less_Suc_eq_le elim!: getline.elims
      intro: le_trans [OF diff_le_self length_dropWhile_le])

declare stream_lines.simps [simp del]

text \<open>
  \<^verbatim>\<open>main\<close>. The file is \<open>None\<close> when it cannot be opened and its content otherwise.
  The program returns 1 after a message on the error stream, or prints the row
  count and the two path values and returns 0, or ends on an exception that nothing
  catches. The two evaluators are called inside one output statement; what that
  statement has already written when an exception leaves it is not part of the outcome.
\<close>

definition filepath :: string where
  "filepath = ''p067_triangle.txt''"

datatype outcome =
  Exit_failure string
| Exit_success nat int32 int32
| Uncaught error

definition main :: "(string \<Rightarrow> Row) \<Rightarrow> string option \<Rightarrow> outcome" where
  "main read_row file =
     (case file of
        None \<Rightarrow> Exit_failure (''Failed to open '' @ filepath)
      | Some content \<Rightarrow>
          (case parse_triangle read_row content of
             Inl e \<Rightarrow> Uncaught e
           | Inr triangle \<Rightarrow>
               (case max_path triangle of
                  Inl e \<Rightarrow> Uncaught e
                | Inr m \<Rightarrow>
                    (case max_odd_even_path triangle of
                       Inl e \<Rightarrow> Uncaught e
                     | Inr oe \<Rightarrow> Exit_success (height triangle) m oe))))"

text \<open>
  A stand-in for the extraction loop, to instantiate \<open>read_row\<close> in examples: one
  value per decimal digit of the line, other characters skipped.
\<close>

definition digits_row :: "string \<Rightarrow> Row" where
  "digits_row s =
     map (\<lambda>c. of_nat (of_char c - 48))
       (filter (\<lambda>c. (48::nat) \<le> of_char c \<and> of_char c \<le> (57::nat)) s)"

section \<open>Example triangles\<close>

text \<open>
  The triangle of the problem statement, its first three rows, and two triangles
  with an entry close to the greatest \<^verbatim>\<open>int\<close>.
\<close>

definition example4 :: Triangle where
  "example4 = \<lparr>rows = [[3], [7, 4], [2, 4, 6], [8, 5, 9, 3]]\<rparr>"

definition example3 :: Triangle where
  "example3 = \<lparr>rows = [[3], [7, 4], [2, 4, 6]]\<rparr>"

definition overflow_example :: Triangle where
  "overflow_example = \<lparr>rows = [[1], [2147483647, 0]]\<rparr>"

definition parity_overflow_example :: Triangle where
  "parity_overflow_example = \<lparr>rows = [[2], [2147483646, 1]]\<rparr>"

section \<open>Triangle: appending rows\<close>

text \<open>
  Claim C4. \<open>append_row\<close> succeeds and appends the row exactly when the row's length is
  the height plus one; otherwise it fails with \<open>InvalidShape\<close> and the Triangle, in
  particular its height, is what it was before the call.
\<close>

theorem append_row_atomic:
  "(length r = height t + 1 \<longrightarrow>
      append_row t r = (Inr (), t\<lparr>rows := rows t @ [r]\<rparr>) \<and>
      height (snd (append_row t r)) = height t + 1) \<and>
   (length r \<noteq> height t + 1 \<longrightarrow>
      append_row t r = (Inl InvalidShape, t) \<and>
      height (snd (append_row t r)) = height t) \<and>
   (fst (append_row t r) = Inr () \<longleftrightarrow> length r = height t + 1)"
  by (simp add: append_row_def height_def)

theorem append_row_atomic_witness:
  "append_row empty_triangle [1, 2, 3] = (Inl InvalidShape, empty_triangle) \<and>
   height (snd (append_row empty_triangle [1, 2, 3])) = 0 \<and>
   append_row empty_triangle [7] = (Inr (), \<lparr>rows = [[7]]\<rparr>)"
  using append_row_atomic [of "[1, 2, 3]" empty_triangle]
    append_row_atomic [of "[7]" empty_triangle]
  by (simp add: empty_triangle_def height_def)

section \<open>The fold engine computes the recurrence\<close>

lemma combine_loop_nth:
  assumes "length row < length accum"
  shows "\<exists>accum'. combine_loop c row i accum = Inr accum' \<and> length accum' = length accum \<and>
           (\<forall>j<length accum. accum' ! j =
              (if i \<le> j \<and> j < length row then c (row ! j) (accum ! j) (accum ! Suc j)
               else accum ! j))"
  using assms
proof (induction c row i accum rule: combine_loop.induct)
  case (1 c row i accum)
  show ?case
  proof (cases "i < length row")
    case False
    then show ?thesis by (auto simp add: combine_loop.simps)
  next
    case True
    let ?a = "accum[i := c (row ! i) (accum ! i) (accum ! Suc i)]"
    from True "1.prems" have s: "Suc i < length accum" by simp
    from "1.IH" [OF True s] "1.prems"
    obtain accum' where r: "combine_loop c row (Suc i) ?a = Inr accum'"
      and l: "length accum' = length accum"
      and n: "\<forall>j<length accum. accum' ! j =
              (if Suc i \<le> j \<and> j < length row then c (row ! j) (?a ! j) (?a ! Suc j)
               else ?a ! j)"
      by auto
    have "combine_loop c row i accum = Inr accum'"
      using True s r by (subst combine_loop.simps) simp
    moreover have "accum' ! j =
              (if i \<le> j \<and> j < length row then c (row ! j) (accum ! j) (accum ! Suc j)
               else accum ! j)" if "j < length accum" for j
      using n [rule_format, OF that] that True s
      by (cases "j = i") (auto simp: nth_list_update)
    ultimately show ?thesis using l by simp
  qed
qed

lemma combine_loop_step:
  assumes "length row < length accum"
  shows "\<exists>accum'. combine_loop c row 0 accum = Inr accum' \<and> length accum' = length accum \<and>
           take (length row) accum' = recurrence_step c row accum"
proof -
  from combine_loop_nth [OF assms, of c 0]
  obtain accum' where r: "combine_loop c row 0 accum = Inr accum'"
    and l: "length accum' = length accum"
    and n: "\<forall>j<length accum. accum' ! j =
              (if 0 \<le> j \<and> j < length row then c (row ! j) (accum ! j) (accum ! Suc j)
               else accum ! j)"
    by blast
  have "take (length row) accum' = recurrence_step c row accum"
    using assms l n by (intro nth_equalityI) (auto simp: recurrence_step_def)
  with r l show ?thesis by simp
qed

lemma recurrence_step_take:
  "length row < m \<Longrightarrow> recurrence_step c row (take m old) = recurrence_step c row old"
  by (simp add: recurrence_step_def)

lemma length_recurrence_step [simp]: "length (recurrence_step c row old) = length row"
  by (simp add: recurrence_step_def)


lemma row_loop_recurrence:
  assumes "\<forall>j<length uppers. Suc (length (uppers ! j) + j) = m" and "m \<le> length accum"
  shows "\<exists>accum'. row_loop c uppers accum = Inr accum' \<and> length accum' = length accum \<and>
           take (m - length uppers) accum' =
             foldl (\<lambda>a row. recurrence_step c row a) (take m accum) uppers"
  using assms
proof (induction uppers arbitrary: accum m)
  case Nil
  then show ?case by simp
next
  case (Cons row us)
  from Cons.prems(1) have lr: "Suc (length row) = m" by auto
  with Cons.prems(2) have "length row < length accum" by simp
  from combine_loop_step [OF this, of c]
  obtain accum1 where r1: "combine_loop c row 0 accum = Inr accum1"
    and l1: "length accum1 = length accum"
    and t1: "take (length row) accum1 = recurrence_step c row accum"
    by blast
  have us: "\<forall>j<length us. Suc (length (us ! j) + j) = length row"
  proof (intro allI impI)
    fix j assume "j < length us"
    then have "Suc (length ((row # us) ! Suc j) + Suc j) = m"
      using Cons.prems(1) by (metis Suc_less_eq length_Cons)
    with lr show "Suc (length (us ! j) + j) = length row" by simp
  qed
  have le: "length row \<le> length accum1" using l1 lr Cons.prems(2) by simp
  from Cons.IH [OF us le]
  obtain accum' where r2: "row_loop c us accum1 = Inr accum'"
    and l2: "length accum' = length accum1"
    and t2: "take (length row - length us) accum' =
               foldl (\<lambda>a row. recurrence_step c row a) (take (length row) accum1) us"
    by blast
  have "recurrence_step c row accum = recurrence_step c row (take m accum)"
    using lr by (simp add: recurrence_step_take)
  with t1 t2 have "take (length row - length us) accum' =
      foldl (\<lambda>a row. recurrence_step c row a) (take m accum) (row # us)"
    by simp
  moreover have "m - length (row # us) = length row - length us" using lr by auto
  ultimately show ?case using r1 r2 l1 l2 by simp
qed

lemma rev_rows_shape:
  assumes "shape_invariant t" and "height t \<noteq> 0"
  shows "rev (rows t) = last (rows t) # rev (butlast (rows t))"
    and "length (last (rows t)) = height t"
    and "\<forall>j<length (rev (butlast (rows t))).
           Suc (length (rev (butlast (rows t)) ! j) + j) = height t"
proof -
  from assms(2) have ne: "rows t \<noteq> []" by (auto simp: height_def)
  then show "rev (rows t) = last (rows t) # rev (butlast (rows t))"
    by (metis append_butlast_last_id rev_singleton_conv rev_append append_Cons append_Nil)
  from ne assms(1) show "length (last (rows t)) = height t"
    by (simp add: shape_invariant_def height_def last_conv_nth)
  show "\<forall>j<length (rev (butlast (rows t))).
           Suc (length (rev (butlast (rows t)) ! j) + j) = height t"
  proof (intro allI impI)
    fix j assume j: "j < length (rev (butlast (rows t)))"
    then have jh: "Suc j < height t" by (simp add: height_def)
    have "rev (butlast (rows t)) ! j = rows t ! (height t - Suc (Suc j))"
      using j jh by (simp add: rev_nth nth_butlast height_def)
    moreover have "length (rows t ! (height t - Suc (Suc j))) = height t - Suc j"
      using assms(1) jh by (simp add: shape_invariant_def)
    ultimately show "Suc (length (rev (butlast (rows t)) ! j) + j) = height t"
      using jh by simp
  qed
qed

lemma fold_triangle_is_recurrence:
  assumes "shape_invariant t" and "height t \<noteq> 0"
  shows "fold_triangle t make_leaf combine = Inr (fold_recurrence t make_leaf combine)"
proof -
  let ?bottom = "last (rows t)" and ?uppers = "rev (butlast (rows t))"
  note sh = rev_rows_shape [OF assms]
  have "height t \<le> length (map make_leaf ?bottom)" using sh(2) by simp
  from row_loop_recurrence [OF sh(3) this, of combine]
  obtain accum where r: "row_loop combine ?uppers (map make_leaf ?bottom) = Inr accum"
    and l: "length accum = height t"
    and tk: "take (height t - length ?uppers) accum =
             foldl (\<lambda>a row. recurrence_step combine row a)
               (take (height t) (map make_leaf ?bottom)) ?uppers"
    using sh(2) by auto
  have "height t - length ?uppers = 1"
    using assms(2) by (cases "rows t") (simp_all add: height_def)
  moreover have "take (height t) (map make_leaf ?bottom) = map make_leaf ?bottom"
    using sh(2) by simp
  ultimately have "take 1 accum =
      foldr (recurrence_step combine) (butlast (rows t)) (map make_leaf ?bottom)"
    using tk by (simp add: foldr_conv_foldl)
  moreover from l assms(2) obtain front rest where a: "accum = front # rest"
    by (cases accum) auto
  ultimately have "front = fold_recurrence t make_leaf combine"
    by (simp add: fold_recurrence_def) (metis list.sel(1))
  moreover have "fold_triangle t make_leaf combine = Inr front"
    unfolding fold_triangle_def sh(1) using assms(2) r a by simp
  ultimately show ?thesis by simp
qed


lemma shape_invariant_code:
  "shape_invariant t = (map length (rows t) = map Suc [0..<height t])"
proof
  assume "shape_invariant t"
  then show "map length (rows t) = map Suc [0..<height t]"
    by (intro nth_equalityI) (simp_all add: shape_invariant_def height_def)
next
  assume a: "map length (rows t) = map Suc [0..<height t]"
  show "shape_invariant t"
    unfolding shape_invariant_def
  proof (intro allI impI)
    fix i assume i: "i < height t"
    then have "map length (rows t) ! i = map Suc [0..<height t] ! i" using a by simp
    with i show "length (rows t ! i) = i + 1" by (simp add: height_def)
  qed
qed

text \<open>
  Claim C2. On a non-empty Triangle, for any two functions \<open>make_leaf\<close> and \<open>combine\<close>,
  \<open>fold_triangle\<close> returns the value of the recurrence: the in-place update of the
  accumulator, left to right, reads at position \<open>i\<close> and \<open>i + 1\<close> only values of the
  row below.
\<close>

theorem fold_triangle_recurrence:
  assumes "shape_invariant t" and "height t \<noteq> 0"
  shows "fold_triangle t make_leaf combine = Inr (fold_recurrence t make_leaf combine)"
  using assms by (rule fold_triangle_is_recurrence)

theorem fold_triangle_recurrence_witness:
  "shape_invariant example3 \<and> height example3 \<noteq> 0 \<and>
   fold_triangle example3 (\<lambda>v. [v]) (\<lambda>v l r. v # l @ r) = Inr [3, 7, 2, 4, 4, 4, 6]"
proof -
  have s: "shape_invariant example3"
    by (simp add: shape_invariant_code example3_def height_def)
  have h: "height example3 \<noteq> 0" by (simp add: example3_def height_def)
  have "fold_recurrence example3 (\<lambda>v. [v]) (\<lambda>v l r. v # l @ r) = [3, 7, 2, 4, 4, 4, 6]"
    by (simp add: fold_recurrence_def example3_def recurrence_step_def upt_rec)
  with fold_triangle_recurrence [OF s h, of "\<lambda>v. [v]" "\<lambda>v l r. v # l @ r"] s h
  show ?thesis by simp
qed

lemma combine_loop_error: "combine_loop c row i accum = Inl e \<Longrightarrow> e = OutOfRange"
proof (induction c row i accum rule: combine_loop.induct)
  case (1 c row i accum)
  from "1.prems" show ?case
    by (subst (asm) combine_loop.simps) (auto split: if_splits intro: "1.IH")
qed

lemma row_loop_error: "row_loop c uppers accum = Inl e \<Longrightarrow> e = OutOfRange"
  by (induction uppers arbitrary: accum)
    (auto split: sum.splits dest: combine_loop_error)

lemma fold_triangle_error:
  assumes "fold_triangle t m c = Inl e"
  shows "(e = EmptyTriangle \<and> height t = 0) \<or> (e = OutOfRange \<and> height t \<noteq> 0)"
proof (cases "height t = 0")
  case True
  with assms show ?thesis by (simp add: fold_triangle_def)
next
  case False
  then obtain bottom uppers where r: "rev (rows t) = bottom # uppers"
    by (cases "rev (rows t)") (auto simp: height_def)
  show ?thesis
  proof (cases "row_loop c uppers (map m bottom)")
    case (Inl e')
    then have "e' = OutOfRange" by (rule row_loop_error)
    with assms False r Inl show ?thesis by (simp add: fold_triangle_def)
  next
    case (Inr accum)
    with assms False r show ?thesis
      by (cases accum) (simp_all add: fold_triangle_def)
  qed
qed

text \<open>
  Claim C5. \<open>fold_triangle\<close> fails with \<open>EmptyTriangle\<close> if and only if the height is 0,
  and on a Triangle of height at least 1 it returns a value.
\<close>

theorem fold_triangle_empty_iff:
  "(fold_triangle t make_t combine_t = Inl EmptyTriangle \<longleftrightarrow> height t = 0) \<and>
   (shape_invariant t \<and> 1 \<le> height t \<longrightarrow> (\<exists>v. fold_triangle t make_t combine_t = Inr v))"
proof (intro conjI impI)
  show "fold_triangle t make_t combine_t = Inl EmptyTriangle \<longleftrightarrow> height t = 0"
  proof
    assume "fold_triangle t make_t combine_t = Inl EmptyTriangle"
    from fold_triangle_error [OF this] show "height t = 0" by simp
  next
    assume "height t = 0"
    then show "fold_triangle t make_t combine_t = Inl EmptyTriangle"
      by (simp add: fold_triangle_def)
  qed
next
  assume "shape_invariant t \<and> 1 \<le> height t"
  then show "\<exists>v. fold_triangle t make_t combine_t = Inr v"
    using fold_triangle_is_recurrence [of t make_t combine_t] by auto
qed

theorem fold_triangle_empty_iff_witness:
  "height empty_triangle = 0 \<and>
   fold_triangle empty_triangle (\<lambda>v. v) (\<lambda>v l r. v + l + r) = Inl EmptyTriangle \<and>
   shape_invariant example4 \<and> 1 \<le> height example4 \<and>
   (\<exists>v. fold_triangle example4 (\<lambda>v. v) (\<lambda>v l r. v + l + r) = Inr v)"
proof -
  have h0: "height empty_triangle = 0" by (simp add: empty_triangle_def height_def)
  have s: "shape_invariant example4"
    by (simp add: shape_invariant_code example4_def height_def)
  have h: "1 \<le> height example4" by (simp add: example4_def height_def)
  note c = fold_triangle_empty_iff [of empty_triangle "\<lambda>v. v" "\<lambda>v l r. v + l + r"]
    fold_triangle_empty_iff [of example4 "\<lambda>v. v" "\<lambda>v l r. v + l + r"]
  from c h0 s h show ?thesis by blast
qed

section \<open>The evaluators\<close>

lemma is_even_iff: "is_even n \<longleftrightarrow> even (sint n)"
  by (simp add: is_even_def smod_int_alt_def sgn_if) presburger

lemma std_max_greater_of: "std_max a b = greater_of a b"
  by (auto simp: std_max_def greater_of_def word_sless_alt word_sle_eq signed_word_eqI)

lemma max_odd_even_path_fold:
  "max_odd_even_path t = fold_triangle t (\<lambda>v. v) odd_even_combine"
proof -
  have "(\<lambda>i left right. i + std_max (if is_even left then 0 else left)
                                  (if is_even right then right else 0)) = odd_even_combine"
    by (intro ext) (simp add: odd_even_combine_def is_even_iff std_max_greater_of)
  then show ?thesis by (simp add: max_odd_even_path_def)
qed

text \<open>
  Claim C3. \<open>max_odd_even_path\<close> is \<open>fold_triangle\<close> with the identity as leaf function
  and the combine function of the specification: the left value below counts only
  if it is odd, the right value below only if it is even, and a value that fails its
  test enters the comparison as 0.
\<close>

theorem max_odd_even_path_combine:
  "max_odd_even_path t = fold_triangle t (\<lambda>v. v) odd_even_combine"
  by (rule max_odd_even_path_fold)

theorem max_odd_even_path_combine_witness:
  "max_odd_even_path example4 = Inr 10 \<and>
   fold_triangle example4 (\<lambda>v. v) odd_even_combine = Inr 10"
proof -
  have "max_odd_even_path example4 = Inr 10"
    by (simp add: max_odd_even_path_def example4_def fold_triangle_def height_def
        combine_loop.simps std_max_def is_even_def word_sless_alt)
  with max_odd_even_path_combine [of example4] show ?thesis by simp
qed

text \<open>
  Claim C7. On the triangle 3 / 7 4 / 2 4 6 / 8 5 9 3, \<open>max_path\<close> returns 23, the sum
  of the path 3, 7, 4, 9.
\<close>

theorem max_path_example4:
  "max_path example4 = Inr 23 \<and> is_path example4 [0, 0, 1, 2] \<and> path_sum example4 [0, 0, 1, 2] = 23"
  by (simp add: max_path_def example4_def fold_triangle_def height_def combine_loop.simps
      std_max_def is_path_def descent_def path_sum_def entries_sum_def)

section \<open>Descents and their greatest sum\<close>

lemma entries_sum_Cons [simp]:
  "entries_sum (row # rs) (p # ps) = sint (row ! p) + entries_sum rs ps"
  by (simp add: entries_sum_def)

lemma entries_sum_Nil [simp]: "entries_sum [] ps = 0" "entries_sum rs [] = 0"
  by (simp_all add: entries_sum_def)

lemma descent_single [simp]: "descent [row] c ps \<longleftrightarrow> ps = [c]"
  by (cases ps) (auto simp: descent_def)

lemma descent_Cons:
  "rs \<noteq> [] \<Longrightarrow> descent (row # rs) c ps \<longleftrightarrow>
     (\<exists>qs. ps = c # qs \<and> (descent rs c qs \<or> descent rs (Suc c) qs))"
proof (cases ps)
  case Nil
  then show ?thesis by (simp add: descent_def)
next
  case (Cons p qs)
  assume "rs \<noteq> []"
  then show ?thesis using Cons
    by (cases qs) (auto simp: descent_def)
qed

lemma descent_le_best: "descent rs c ps \<Longrightarrow> entries_sum rs ps \<le> best rs c"
proof (induction rs c arbitrary: ps rule: best.induct)
  case (1 c)
  then show ?case by (simp add: descent_def)
next
  case (2 row c)
  then show ?case by simp
next
  case (3 row r rs c)
  from "3.prems" obtain qs where ps: "ps = c # qs"
    and d: "descent (r # rs) c qs \<or> descent (r # rs) (Suc c) qs"
    by (auto simp: descent_Cons)
  from d "3.IH" have "entries_sum (r # rs) qs \<le> max (best (r # rs) c) (best (r # rs) (Suc c))"
    by (auto simp: le_max_iff_disj)
  with ps show ?case by simp
qed

lemma best_attained: "rs \<noteq> [] \<Longrightarrow> \<exists>ps. descent rs c ps \<and> entries_sum rs ps = best rs c"
proof (induction rs c rule: best.induct)
  case (1 c)
  then show ?case by simp
next
  case (2 row c)
  then show ?case by simp
next
  case (3 row r rs c)
  let ?c' = "if best (r # rs) c \<le> best (r # rs) (Suc c) then Suc c else c"
  have "\<exists>qs. descent (r # rs) ?c' qs \<and> entries_sum (r # rs) qs = best (r # rs) ?c'"
    using "3.IH" by simp
  then obtain qs where d: "descent (r # rs) ?c' qs"
    and e: "entries_sum (r # rs) qs = best (r # rs) ?c'" by blast
  have "descent (row # r # rs) c (c # qs)"
    using d by (auto simp: descent_Cons split: if_splits)
  moreover have "entries_sum (row # r # rs) (c # qs) = best (row # r # rs) c"
    using e by (simp add: max_def)
  ultimately show ?case by blast
qed

lemma greatest_descent_best: "rs \<noteq> [] \<Longrightarrow> greatest_descent rs c x \<longleftrightarrow> x = best rs c"
proof
  assume ne: "rs \<noteq> []" and g: "greatest_descent rs c x"
  from g obtain ps where "descent rs c ps" "entries_sum rs ps = x"
    by (auto simp: greatest_descent_def)
  then have "x \<le> best rs c" using descent_le_best by blast
  moreover from best_attained [OF ne, of c] g have "best rs c \<le> x"
    by (auto simp: greatest_descent_def)
  ultimately show "x = best rs c" by simp
next
  assume ne: "rs \<noteq> []" and "x = best rs c"
  then show "greatest_descent rs c x"
    using best_attained [OF ne, of c] descent_le_best [of rs c]
    by (auto simp: greatest_descent_def)
qed

lemma no_overflow_best:
  "no_overflow t \<longleftrightarrow> (\<forall>k<height t. \<forall>c\<le>k. in_int_range (best (drop k (rows t)) c))"
proof -
  have g: "greatest_descent (drop k (rows t)) c x \<longleftrightarrow> x = best (drop k (rows t)) c"
    if "k < height t" for k c x
    using that by (intro greatest_descent_best) (simp add: height_def)
  show ?thesis
  proof
    assume n: "no_overflow t"
    show "\<forall>k<height t. \<forall>c\<le>k. in_int_range (best (drop k (rows t)) c)"
    proof (intro allI impI)
      fix k c assume "k < height t" and "c \<le> k"
      with n g [of k c "best (drop k (rows t)) c"]
      show "in_int_range (best (drop k (rows t)) c)"
        unfolding no_overflow_def by blast
    qed
  next
    assume b: "\<forall>k<height t. \<forall>c\<le>k. in_int_range (best (drop k (rows t)) c)"
    show "no_overflow t"
      unfolding no_overflow_def
    proof (intro allI impI)
      fix k c x
      assume a: "k < height t \<and> c \<le> k \<and> greatest_descent (drop k (rows t)) c x"
      with g [of k c x] have "x = best (drop k (rows t)) c" by simp
      with a b show "in_int_range x" by simp
    qed
  qed
qed

lemma no_overflow_code:
  "no_overflow t =
     list_all (\<lambda>k. list_all (\<lambda>c. in_int_range (best (drop k (rows t)) c)) [0..<Suc k])
       [0..<height t]"
  by (simp add: no_overflow_best list_all_iff Ball_def less_Suc_eq_le del: upt_Suc)

section \<open>Signed arithmetic without overflow\<close>

lemma sint_add_in_range:
  "in_int_range (sint a + sint b) \<Longrightarrow> sint (a + b :: int32) = sint a + sint b"
  by (simp add: in_int_range_def sint_word_ariths signed_take_bit_int_eq_self)

lemma sint_std_max: "sint (std_max a b) = max (sint a) (sint b)"
  by (simp add: std_max_def word_sless_alt max_def)


section \<open>The accumulator of max_path holds the greatest descent sums\<close>

lemma foldr_recurrence_Cons:
  "rs \<noteq> [] \<Longrightarrow>
   foldr (recurrence_step f) (butlast (row # rs)) (map g (last (row # rs))) =
     recurrence_step f row (foldr (recurrence_step f) (butlast rs) (map g (last rs)))"
  by simp

lemma recurrence_step_nth:
  "c < length row \<Longrightarrow> recurrence_step f row old ! c = f (row ! c) (old ! c) (old ! Suc c)"
  by (simp add: recurrence_step_def)

lemma max_path_accum:
  assumes "rs \<noteq> []"
    and "\<forall>j<length rs. length (rs ! j) = k + j + 1"
    and "\<forall>j<length rs. \<forall>c\<le>k + j. in_int_range (best (drop j rs) c)"
  shows "length (foldr (recurrence_step (\<lambda>i left right. i + std_max left right))
            (butlast rs) (map (\<lambda>i. i) (last rs))) = k + 1 \<and>
         (\<forall>c\<le>k. sint (foldr (recurrence_step (\<lambda>i left right. i + std_max left right))
            (butlast rs) (map (\<lambda>i. i) (last rs)) ! c) = best rs c)"
  using assms
proof (induction rs arbitrary: k rule: list_nonempty_induct)
  case (single row)
  from single.prems(1) have "length row = k + 1" by simp
  then show ?case by simp
next
  case (cons row rs)
  let ?f = "\<lambda>i left right. i + std_max left right :: int32"
  let ?A = "foldr (recurrence_step ?f) (butlast rs) (map (\<lambda>i. i) (last rs))"
  have lrow: "length row = k + 1" using cons.prems(1) by auto
  have sh: "\<forall>j<length rs. length (rs ! j) = Suc k + j + 1"
  proof (intro allI impI)
    fix j assume "j < length rs"
    then have "length ((row # rs) ! Suc j) = k + Suc j + 1"
      using cons.prems(1) by (metis Suc_less_eq length_Cons)
    then show "length (rs ! j) = Suc k + j + 1" by simp
  qed
  have rg: "\<forall>j<length rs. \<forall>c\<le>Suc k + j. in_int_range (best (drop j rs) c)"
  proof (intro allI impI)
    fix j c assume "j < length rs" and "c \<le> Suc k + j"
    then have "in_int_range (best (drop (Suc j) (row # rs)) c)"
      using cons.prems(2) by (metis Suc_less_eq length_Cons add_Suc_shift)
    then show "in_int_range (best (drop j rs) c)" by simp
  qed
  from cons.IH [OF sh rg]
  have lA: "length ?A = Suc k + 1" and vA: "\<forall>c\<le>Suc k. sint (?A ! c) = best rs c"
    by simp_all
  have eq: "foldr (recurrence_step ?f) (butlast (row # rs)) (map (\<lambda>i. i) (last (row # rs)))
      = recurrence_step ?f row ?A"
    using cons.hyps by (rule foldr_recurrence_Cons)
  have "sint (recurrence_step ?f row ?A ! c) = best (row # rs) c" if c: "c \<le> k" for c
  proof -
    from cons.hyps obtain r rs' where rs: "rs = r # rs'" by (cases rs) auto
    have b: "best (row # rs) c = sint (row ! c) + max (best rs c) (best rs (Suc c))"
      by (simp add: rs)
    have "in_int_range (best (drop 0 (row # rs)) c)"
      using cons.prems(2) c by (metis length_greater_0_conv list.distinct(1) add.right_neutral)
    then have r: "in_int_range (sint (row ! c) + max (best rs c) (best rs (Suc c)))"
      using b by simp
    have "sint (?A ! c) = best rs c" and "sint (?A ! Suc c) = best rs (Suc c)"
      using vA c by simp_all
    then have "sint (std_max (?A ! c) (?A ! Suc c)) = max (best rs c) (best rs (Suc c))"
      by (simp add: sint_std_max)
    with r have "sint (row ! c + std_max (?A ! c) (?A ! Suc c)) =
        sint (row ! c) + max (best rs c) (best rs (Suc c))"
      by (simp add: sint_add_in_range)
    with b c lrow show ?thesis by (simp add: recurrence_step_nth)
  qed
  with eq lrow show ?case by simp
qed

lemma shape_invariant_rows:
  "shape_invariant t \<Longrightarrow> \<forall>j<length (rows t). length (rows t ! j) = 0 + j + 1"
  by (simp add: shape_invariant_def height_def)

lemma no_overflow_rows:
  "no_overflow t \<Longrightarrow> \<forall>j<length (rows t). \<forall>c\<le>0 + j. in_int_range (best (drop j (rows t)) c)"
  by (simp add: no_overflow_best height_def)

text \<open>
  Claim C1, amended. On a non-empty Triangle in which no cell's greatest descent
  sum overflows, \<open>max_path\<close> returns the greatest sum over all paths from the apex to
  the base: some path has that sum, and no path has a greater one.
\<close>

theorem max_path_greatest:
  assumes "shape_invariant t" and "height t \<noteq> 0" and "no_overflow t"
  shows "\<exists>v. max_path t = Inr v \<and>
           (\<exists>ps. is_path t ps \<and> path_sum t ps = sint v) \<and>
           (\<forall>ps. is_path t ps \<longrightarrow> path_sum t ps \<le> sint v)"
proof -
  let ?v = "fold_recurrence t (\<lambda>i. i) (\<lambda>i left right. i + std_max left right)"
  have ne: "rows t \<noteq> []" using assms(2) by (auto simp: height_def)
  have r: "max_path t = Inr ?v"
    unfolding max_path_def by (rule fold_triangle_is_recurrence [OF assms(1,2)])
  from max_path_accum [OF ne shape_invariant_rows [OF assms(1)] no_overflow_rows [OF assms(3)]]
  have l: "length (foldr (recurrence_step (\<lambda>i left right. i + std_max left right))
            (butlast (rows t)) (map (\<lambda>i. i) (last (rows t)))) = 0 + 1"
    and v: "sint (foldr (recurrence_step (\<lambda>i left right. i + std_max left right))
            (butlast (rows t)) (map (\<lambda>i. i) (last (rows t))) ! 0) = best (rows t) 0"
    by simp_all
  from l have "foldr (recurrence_step (\<lambda>i left right. i + std_max left right))
            (butlast (rows t)) (map (\<lambda>i. i) (last (rows t))) \<noteq> []"
    by auto
  with v have s: "sint ?v = best (rows t) 0"
    by (simp add: fold_recurrence_def hd_conv_nth)
  have "greatest_descent (rows t) 0 (best (rows t) 0)"
    using ne by (simp add: greatest_descent_best)
  with s have "(\<exists>ps. is_path t ps \<and> path_sum t ps = sint ?v) \<and>
           (\<forall>ps. is_path t ps \<longrightarrow> path_sum t ps \<le> sint ?v)"
    by (simp add: greatest_descent_def is_path_def path_sum_def)
  with r show ?thesis by blast
qed


theorem max_path_greatest_witness:
  "shape_invariant example4 \<and> height example4 \<noteq> 0 \<and> no_overflow example4 \<and>
   (\<exists>v. max_path example4 = Inr v \<and>
      (\<exists>ps. is_path example4 ps \<and> path_sum example4 ps = sint v) \<and>
      (\<forall>ps. is_path example4 ps \<longrightarrow> path_sum example4 ps \<le> sint v))"
proof -
  have s: "shape_invariant example4"
    by (simp add: shape_invariant_code example4_def height_def)
  have h: "height example4 \<noteq> 0" by (simp add: example4_def height_def)
  have n: "no_overflow example4"
    by (simp add: no_overflow_code example4_def height_def in_int_range_def)
  from max_path_greatest [OF s h n] s h n show ?thesis by simp
qed

text \<open>
  Claim C1 as stated fails where a sum leaves the range of \<^verbatim>\<open>int\<close>: in the triangle
  1 / 2147483647 0 the path through 2147483647 has the sum 2147483648, which no
  \<^verbatim>\<open>int\<close> holds, and the addition in \<open>max_path\<close> wraps around to -2147483648.
\<close>

theorem max_path_overflow_counterexample:
  "shape_invariant overflow_example \<and> height overflow_example = 2 \<and>
   is_path overflow_example [0, 0] \<and>
   path_sum overflow_example [0, 0] = 2147483648 \<and>
   \<not> in_int_range (path_sum overflow_example [0, 0]) \<and>
   max_path overflow_example = Inr (- 2147483648) \<and>
   sint (- 2147483648 :: int32) < path_sum overflow_example [0, 0]"
  by (simp add: shape_invariant_code overflow_example_def height_def is_path_def
      descent_def path_sum_def entries_sum_def in_int_range_def max_path_def
      fold_triangle_def combine_loop.simps std_max_def word_sless_alt)

section \<open>The parity-constrained value is below the greatest descent sum\<close>

lemma max_odd_even_accum:
  assumes "rs \<noteq> []"
    and "\<forall>j<length rs. length (rs ! j) = k + j + 1"
    and "\<forall>j<length rs. \<forall>c\<le>k + j. in_int_range (best (drop j rs) c)"
    and "\<forall>row\<in>set rs. \<forall>v\<in>set row. 0 \<le> sint v"
  shows "length (foldr (recurrence_step odd_even_combine)
            (butlast rs) (map (\<lambda>i. i) (last rs))) = k + 1 \<and>
         (\<forall>c\<le>k. 0 \<le> sint (foldr (recurrence_step odd_even_combine)
              (butlast rs) (map (\<lambda>i. i) (last rs)) ! c) \<and>
            sint (foldr (recurrence_step odd_even_combine)
              (butlast rs) (map (\<lambda>i. i) (last rs)) ! c) \<le> best rs c)"
  using assms
proof (induction rs arbitrary: k rule: list_nonempty_induct)
  case (single row)
  from single.prems(1) have "length row = k + 1" by simp
  with single.prems(3) show ?case by simp
next
  case (cons row rs)
  let ?A = "foldr (recurrence_step odd_even_combine) (butlast rs) (map (\<lambda>i. i) (last rs))"
  have lrow: "length row = k + 1" using cons.prems(1) by auto
  have sh: "\<forall>j<length rs. length (rs ! j) = Suc k + j + 1"
  proof (intro allI impI)
    fix j assume "j < length rs"
    then have "length ((row # rs) ! Suc j) = k + Suc j + 1"
      using cons.prems(1) by (metis Suc_less_eq length_Cons)
    then show "length (rs ! j) = Suc k + j + 1" by simp
  qed
  have rg: "\<forall>j<length rs. \<forall>c\<le>Suc k + j. in_int_range (best (drop j rs) c)"
  proof (intro allI impI)
    fix j c assume "j < length rs" and "c \<le> Suc k + j"
    then have "in_int_range (best (drop (Suc j) (row # rs)) c)"
      using cons.prems(2) by (metis Suc_less_eq length_Cons add_Suc_shift)
    then show "in_int_range (best (drop j rs) c)" by simp
  qed
  have nn: "\<forall>row\<in>set rs. \<forall>v\<in>set row. 0 \<le> sint v" using cons.prems(3) by simp
  from cons.IH [OF sh rg nn]
  have lA: "length ?A = Suc k + 1"
    and vA: "\<forall>c\<le>Suc k. 0 \<le> sint (?A ! c) \<and> sint (?A ! c) \<le> best rs c"
    by simp_all
  have eq: "foldr (recurrence_step odd_even_combine) (butlast (row # rs))
        (map (\<lambda>i. i) (last (row # rs))) = recurrence_step odd_even_combine row ?A"
    using cons.hyps by (rule foldr_recurrence_Cons)
  have "0 \<le> sint (recurrence_step odd_even_combine row ?A ! c) \<and>
        sint (recurrence_step odd_even_combine row ?A ! c) \<le> best (row # rs) c"
    if c: "c \<le> k" for c
  proof -
    from cons.hyps obtain r rs' where rs: "rs = r # rs'" by (cases rs) auto
    have b: "best (row # rs) c = sint (row ! c) + max (best rs c) (best rs (Suc c))"
      by (simp add: rs)
    have "in_int_range (best (drop 0 (row # rs)) c)"
      using cons.prems(2) c by (metis length_greater_0_conv list.distinct(1) add.right_neutral)
    then have r: "in_int_range (sint (row ! c) + max (best rs c) (best rs (Suc c)))"
      using b by simp
    define left where "left = (if even (sint (?A ! c)) then 0 else ?A ! c)"
    define right where "right = (if even (sint (?A ! Suc c)) then ?A ! Suc c else 0)"
    define x where "x = sint (greater_of left right)"
    have ac: "0 \<le> sint (?A ! c) \<and> sint (?A ! c) \<le> best rs c"
      and asc: "0 \<le> sint (?A ! Suc c) \<and> sint (?A ! Suc c) \<le> best rs (Suc c)"
      using vA c by simp_all
    have l: "0 \<le> sint left \<and> sint left \<le> best rs c"
      using ac by (cases "even (sint (?A ! c))") (simp_all add: left_def)
    have rr: "0 \<le> sint right \<and> sint right \<le> best rs (Suc c)"
      using asc by (cases "even (sint (?A ! Suc c))") (simp_all add: right_def)
    have x: "0 \<le> x \<and> x \<le> max (best rs c) (best rs (Suc c))"
      using l rr by (auto simp: x_def greater_of_def)
    have v0: "0 \<le> sint (row ! c)"
      using cons.prems(3) c lrow by simp
    from r x v0 have "in_int_range (sint (row ! c) + x)"
      by (simp add: in_int_range_def)
    then have "sint (row ! c + greater_of left right) = sint (row ! c) + x"
      unfolding x_def by (rule sint_add_in_range)
    moreover have "recurrence_step odd_even_combine row ?A ! c = row ! c + greater_of left right"
      using c lrow by (simp add: recurrence_step_nth odd_even_combine_def left_def right_def)
    ultimately show ?thesis using x v0 b by simp
  qed
  with eq lrow show ?case by simp
qed

text \<open>
  Claim C9, amended. On a non-empty Triangle with nonnegative entries in which no
  cell's greatest descent sum overflows, the value of \<open>max_odd_even_path\<close> is at most
  the value of \<open>max_path\<close>.
\<close>

theorem max_odd_even_path_le_max_path:
  assumes "shape_invariant t" and "height t \<noteq> 0"
    and "nonnegative_entries t" and "no_overflow t"
  shows "\<exists>oe m. max_odd_even_path t = Inr oe \<and> max_path t = Inr m \<and> oe \<le>s m"
proof -
  let ?oe = "fold_recurrence t (\<lambda>i. i) odd_even_combine"
  let ?m = "fold_recurrence t (\<lambda>i. i) (\<lambda>i left right. i + std_max left right)"
  let ?A = "foldr (recurrence_step odd_even_combine) (butlast (rows t))
              (map (\<lambda>i. i) (last (rows t)))"
  let ?B = "foldr (recurrence_step (\<lambda>i left right. i + std_max left right))
              (butlast (rows t)) (map (\<lambda>i. i) (last (rows t)))"
  have ne: "rows t \<noteq> []" using assms(2) by (auto simp: height_def)
  have nn: "\<forall>row\<in>set (rows t). \<forall>v\<in>set row. 0 \<le> sint v"
    using assms(3) by (simp add: nonnegative_entries_def word_sle_eq)
  have r1: "max_odd_even_path t = Inr ?oe"
    unfolding max_odd_even_path_fold by (rule fold_triangle_is_recurrence [OF assms(1,2)])
  have r2: "max_path t = Inr ?m"
    unfolding max_path_def by (rule fold_triangle_is_recurrence [OF assms(1,2)])
  from max_odd_even_accum [OF ne shape_invariant_rows [OF assms(1)]
      no_overflow_rows [OF assms(4)] nn]
  have "length ?A = 0 + 1" and "sint (?A ! 0) \<le> best (rows t) 0" by simp_all
  moreover from this(1) have "?A \<noteq> []" by auto
  ultimately have a: "sint ?oe \<le> best (rows t) 0"
    by (simp add: fold_recurrence_def hd_conv_nth)
  from max_path_accum [OF ne shape_invariant_rows [OF assms(1)] no_overflow_rows [OF assms(4)]]
  have "length ?B = 0 + 1" and "sint (?B ! 0) = best (rows t) 0" by simp_all
  moreover from this(1) have "?B \<noteq> []" by auto
  ultimately have b: "sint ?m = best (rows t) 0"
    by (simp add: fold_recurrence_def hd_conv_nth)
  from a b have "?oe \<le>s ?m" by (simp add: word_sle_eq)
  with r1 r2 show ?thesis by blast
qed

theorem max_odd_even_path_le_max_path_witness:
  "shape_invariant example4 \<and> height example4 \<noteq> 0 \<and> nonnegative_entries example4 \<and>
   no_overflow example4 \<and>
   (\<exists>oe m. max_odd_even_path example4 = Inr oe \<and> max_path example4 = Inr m \<and> oe \<le>s m)"
proof -
  have s: "shape_invariant example4"
    by (simp add: shape_invariant_code example4_def height_def)
  have h: "height example4 \<noteq> 0" by (simp add: example4_def height_def)
  have e: "nonnegative_entries example4"
    by (simp add: nonnegative_entries_def example4_def word_sle_eq)
  have n: "no_overflow example4"
    by (simp add: no_overflow_code example4_def height_def in_int_range_def)
  from max_odd_even_path_le_max_path [OF s h e n] s h e n show ?thesis by simp
qed

text \<open>
  Claim C9 as stated fails where a sum leaves the range of \<^verbatim>\<open>int\<close>: in the triangle
  2 / 2147483646 1 all entries are nonnegative, \<open>max_odd_even_path\<close> returns 2 (the
  left value below is even and the right one odd, so both count as 0), and the
  addition in \<open>max_path\<close> wraps around to -2147483648.
\<close>

theorem max_odd_even_path_overflow_counterexample:
  "shape_invariant parity_overflow_example \<and> height parity_overflow_example = 2 \<and>
   nonnegative_entries parity_overflow_example \<and>
   max_odd_even_path parity_overflow_example = Inr 2 \<and>
   max_path parity_overflow_example = Inr (- 2147483648) \<and>
   \<not> (2 :: int32) \<le>s - 2147483648"
  by (simp add: shape_invariant_code parity_overflow_example_def height_def
      nonnegative_entries_def max_odd_even_path_def max_path_def fold_triangle_def
      combine_loop.simps std_max_def is_even_iff word_sless_alt word_sle_eq)

section \<open>The class invariant\<close>

lemma shape_append_row:
  "shape_invariant t \<Longrightarrow> append_row t row = (res, t') \<Longrightarrow> shape_invariant t'"
  by (auto simp: append_row_def shape_invariant_def height_def nth_append less_Suc_eq
      split: if_splits)

lemma shape_at_assign:
  "shape_invariant t \<Longrightarrow> at_assign t r n v = Inr t' \<Longrightarrow> shape_invariant t'"
  by (auto simp: at_assign_def shape_invariant_def height_def nth_list_update
      split: if_splits)

text \<open>
  Claim C6. Every Triangle reachable from the empty one by calls of \<open>append_row\<close>,
  accepted or rejected, and by overwriting elements through \<open>at\<close>, has \<open>i + 1\<close>
  elements in its row \<open>i\<close>, for every \<open>i\<close> below its height.
\<close>

theorem reachable_shape:
  assumes "reachable t" and "i < height t"
  shows "length (rows t ! i) = i + 1"
proof -
  from assms(1) have "shape_invariant t"
  proof (induction rule: reachable.induct)
    case constructed
    show ?case by (simp add: shape_invariant_def empty_triangle_def height_def)
  next
    case (appended t row res t')
    then show ?case by (blast intro: shape_append_row)
  next
    case (overwritten t r n v t')
    then show ?case by (blast intro: shape_at_assign)
  qed
  with assms(2) show ?thesis by (simp add: shape_invariant_def)
qed

theorem reachable_shape_witness:
  "reachable \<lparr>rows = [[3], [9, 4]]\<rparr> \<and> (1::nat) < height \<lparr>rows = [[3], [9, 4]]\<rparr> \<and>
   length (rows \<lparr>rows = [[3], [9, 4]]\<rparr> ! 1) = 1 + 1"
proof -
  have r1: "reachable \<lparr>rows = [[3]]\<rparr>"
    by (rule appended [OF constructed, of "[3]" "Inr ()"])
      (simp add: append_row_def empty_triangle_def height_def)
  have r2: "reachable \<lparr>rows = [[3]]\<rparr>"
    by (rule appended [OF r1, of "[1, 2, 3]" "Inl InvalidShape"])
      (simp add: append_row_def height_def)
  have r3: "reachable \<lparr>rows = [[3], [7, 4]]\<rparr>"
    by (rule appended [OF r2, of "[7, 4]" "Inr ()"])
      (simp add: append_row_def height_def)
  have r4: "reachable \<lparr>rows = [[3], [9, 4]]\<rparr>"
    by (rule overwritten [OF r3, of 1 0 9]) (simp add: at_assign_def)
  have h: "(1::nat) < height \<lparr>rows = [[3], [9, 4]]\<rparr>" by (simp add: height_def)
  from reachable_shape [OF r4 h] r4 h show ?thesis by simp
qed

section \<open>Parsing\<close>

lemma parse_loop_bad_line:
  "k < length (stream_lines stream) \<Longrightarrow>
   length (read_row (stream_lines stream ! k)) \<noteq> height triangle + k + 1 \<Longrightarrow>
   parse_loop read_row stream triangle = Inl InvalidShape"
proof (induction read_row stream triangle arbitrary: k rule: parse_loop.induct)
  case (1 read_row stream triangle)
  show ?case
  proof (cases "getline stream")
    case None
    with "1.prems"(1) show ?thesis by (simp add: stream_lines.simps)
  next
    case (Some a)
    obtain row_string rest where a: "a = (row_string, rest)" by (cases a)
    have ls: "stream_lines stream = row_string # stream_lines rest"
      using Some a by (subst stream_lines.simps) simp
    show ?thesis
    proof (cases "length (read_row row_string) = height triangle + 1")
      case False
      then show ?thesis
        using Some a by (subst parse_loop.simps) (simp add: append_row_def)
    next
      case True
      let ?t' = "triangle\<lparr>rows := rows triangle @ [read_row row_string]\<rparr>"
      have ap: "append_row triangle (read_row row_string) = (Inr (), ?t')"
        using True by (simp add: append_row_def)
      have step: "parse_loop read_row stream triangle = parse_loop read_row rest ?t'"
        using Some a ap by (subst parse_loop.simps) simp
      from True "1.prems"(2) ls have "k \<noteq> 0" by (cases k) auto
      then obtain k' where k: "k = Suc k'" by (cases k) auto
      have h: "height ?t' = height triangle + 1" by (simp add: height_def)
      have "parse_loop read_row rest ?t' = Inl InvalidShape"
      proof (rule "1.IH" [OF Some a [symmetric] ap [symmetric] refl])
        show "k' < length (stream_lines rest)" using "1.prems"(1) ls k by simp
        show "length (read_row (stream_lines rest ! k')) \<noteq> height ?t' + k' + 1"
          using "1.prems"(2) ls k h by simp
      qed
      with step show ?thesis by simp
    qed
  qed
qed

text \<open>
  Claim C8. If some line of the input does not yield as many values as its number
  (line \<open>k + 1\<close>, counting the lines from 1, is \<open>stream_lines stream ! k\<close>), parsing
  fails with \<open>InvalidShape\<close> and returns no Triangle.
\<close>

theorem parse_triangle_malformed:
  assumes "k < length (stream_lines stream)"
    and "length (read_row (stream_lines stream ! k)) \<noteq> k + 1"
  shows "parse_triangle read_row stream = Inl InvalidShape"
  unfolding parse_triangle_def
  by (rule parse_loop_bad_line [OF assms(1)])
    (use assms(2) in \<open>simp add: empty_triangle_def height_def\<close>)

lemma parse_loop_good:
  "\<forall>k<length (stream_lines stream). length (read_row (stream_lines stream ! k)) = height triangle + k + 1 \<Longrightarrow>
   parse_loop read_row stream triangle =
     Inr (triangle\<lparr>rows := rows triangle @ map read_row (stream_lines stream)\<rparr>)"
proof (induction read_row stream triangle rule: parse_loop.induct)
  case (1 read_row stream triangle)
  show ?case
  proof (cases "getline stream")
    case None
    then show ?thesis
      by (subst parse_loop.simps, subst stream_lines.simps) simp
  next
    case (Some a)
    obtain row_string rest where a: "a = (row_string, rest)" by (cases a)
    have ls: "stream_lines stream = row_string # stream_lines rest"
      using Some a by (subst stream_lines.simps) simp
    from "1.prems" ls have True: "length (read_row row_string) = height triangle + 1"
      by auto
    let ?t' = "triangle\<lparr>rows := rows triangle @ [read_row row_string]\<rparr>"
    have ap: "append_row triangle (read_row row_string) = (Inr (), ?t')"
      using True by (simp add: append_row_def)
    have step: "parse_loop read_row stream triangle = parse_loop read_row rest ?t'"
      using Some a ap by (subst parse_loop.simps) simp
    have h: "height ?t' = height triangle + 1" by (simp add: height_def)
    have "parse_loop read_row rest ?t' =
      Inr (?t'\<lparr>rows := rows ?t' @ map read_row (stream_lines rest)\<rparr>)"
    proof (rule "1.IH" [OF Some a [symmetric] ap [symmetric] refl], intro allI impI)
      fix k assume "k < length (stream_lines rest)"
      then have "length (read_row (stream_lines stream ! Suc k)) = height triangle + Suc k + 1"
        using "1.prems" ls by auto
      then show "length (read_row (stream_lines rest ! k)) = height ?t' + k + 1"
        using ls h by simp
    qed
    with step ls show ?thesis by simp
  qed
qed

theorem parse_triangle_malformed_witness:
  "stream_lines ''3\<newline>7 4 5\<newline>2 4 6'' = [''3'', ''7 4 5'', ''2 4 6''] \<and>
   length (digits_row ''7 4 5'') = 3 \<and>
   parse_triangle digits_row ''3\<newline>7 4 5\<newline>2 4 6'' = Inl InvalidShape"
proof -
  have l: "stream_lines ''3\<newline>7 4 5\<newline>2 4 6'' = [''3'', ''7 4 5'', ''2 4 6'']"
    by (simp add: stream_lines.simps newline_def)
  have d: "length (digits_row ''7 4 5'') = 3" by (simp add: digits_row_def)
  have "parse_triangle digits_row ''3\<newline>7 4 5\<newline>2 4 6'' = Inl InvalidShape"
    by (rule parse_triangle_malformed [of 1]) (simp_all add: l d)
  with l d show ?thesis by simp
qed

text \<open>
  Claim C10. An input with no line parses to a Triangle of height 0, on which
  \<open>max_path\<close> fails with \<open>EmptyTriangle\<close>; the program, which catches nothing, ends on
  that exception and prints no results.
\<close>

theorem parse_empty_input:
  assumes "stream_lines stream = []"
  shows "parse_triangle read_row stream = Inr empty_triangle \<and>
    height empty_triangle = 0 \<and>
    max_path empty_triangle = Inl EmptyTriangle \<and>
    main read_row (Some stream) = Uncaught EmptyTriangle"
proof -
  from assms have s: "stream = []"
    by (cases stream) (simp_all add: stream_lines.simps)
  have p: "parse_triangle read_row [] = Inr empty_triangle"
    by (simp add: parse_triangle_def parse_loop.simps)
  have h: "height empty_triangle = 0" by (simp add: empty_triangle_def height_def)
  have m: "max_path empty_triangle = Inl EmptyTriangle"
    using h by (simp add: max_path_def fold_triangle_def)
  show ?thesis using s p h m by (simp add: main_def)
qed

theorem parse_empty_input_witness:
  "stream_lines [] = [] \<and>
   parse_triangle digits_row [] = Inr empty_triangle \<and>
   main digits_row (Some []) = Uncaught EmptyTriangle"
proof -
  have l: "stream_lines [] = []" by (simp add: stream_lines.simps)
  from parse_empty_input [OF l, of digits_row] l show ?thesis by simp
qed

end
